theory Spec2Isabelle
  imports Complex_Main "HOL-Library.Log_Nat" "HOL-Library.Word"
begin

section \<open>JavaScript numbers\<close>

text \<open>
  The arithmetic of \<^verbatim>\<open>processImage\<close> is done on JavaScript numbers, that is IEEE 754
  binary64 values.  Every finite double is a rational, so a number is a \<^typ>\<open>rat\<close> and the
  result of an arithmetic operation is the exact result rounded to the nearest double, ties
  to even (\<open>fl\<close>).  The rounding is the one of the normal range (53 significant bits, no
  overflow and no subnormals): the values that occur below are quotients and products of
  integers between 1 and \<open>2 ^ 32\<close> and the constant 1200, far inside that range.  No division
  by zero, NaN or infinity can occur: a divisor is an image dimension greater than 1200.
\<close>

type_synonym number = rat

definition ilog2 :: "rat \<Rightarrow> int" where
  \<comment> \<open>the binary exponent of a positive rational: \<open>2 powi ilog2 x \<le> x < 2 powi (ilog2 x + 1)\<close>\<close>
  "ilog2 x = (case quotient_of x of (p, q) \<Rightarrow>
     let d = int (floorlog 2 (nat p)) - int (floorlog 2 (nat q))
     in if 2 powi d \<le> x then d else d - 1)"

definition round_half_even :: "rat \<Rightarrow> int" where
  "round_half_even y = (let n = \<lfloor>y\<rfloor>; r = y - of_int n
     in if r < 1 / 2 then n else if 1 / 2 < r then n + 1
        else if even n then n else n + 1)"

definition fl :: "rat \<Rightarrow> number" where
  \<comment> \<open>round to nearest binary64, ties to even: the significand is an integer of 53 bits\<close>
  "fl x = (if x = 0 then 0
     else let u = 2 powi (ilog2 \<bar>x\<bar> - 52)
          in sgn x * of_int (round_half_even (\<bar>x\<bar> / u)) * u)"

definition js_div :: "number \<Rightarrow> number \<Rightarrow> number" where
  "js_div a b = fl (a / b)"

definition js_mul :: "number \<Rightarrow> number \<Rightarrow> number" where
  "js_mul a b = fl (a * b)"

definition to_unsigned_long :: "number \<Rightarrow> nat" where
  \<comment> \<open>assigning a number to an \<^verbatim>\<open>unsigned long\<close> attribute (\<^verbatim>\<open>canvas.width\<close>,
      \<^verbatim>\<open>canvas.height\<close>): the fraction is cut off towards zero, then modulo \<open>2 ^ 32\<close>\<close>
  "to_unsigned_long x = nat ((if x < 0 then - \<lfloor>- x\<rfloor> else \<lfloor>x\<rfloor>) mod 2 ^ 32)"


section \<open>Data model\<close>

record File =
  file_name :: string
  file_size :: nat

datatype status = Idle | Processing | Done

text \<open>
  \<^verbatim>\<open>interface ImageData { id; file; preview; status: "idle" | "processing" | "done";
  resultUrl?: string }\<close>.  The fields \<^verbatim>\<open>id\<close> and \<^verbatim>\<open>file\<close> are \<open>item_id\<close> and \<open>item_file\<close> here.
\<close>

record ImageData =
  item_id :: string
  item_file :: File
  preview :: string
  status :: status
  resultUrl :: "string option"

text \<open>
  A promise either never settles, is fulfilled with a value, or is rejected with a reason.
\<close>

datatype 'a promise = Pending | Fulfilled 'a | Rejected string

record Canvas =
  canvas_width :: nat
  canvas_height :: nat
  canvas_image :: "(string \<times> number \<times> number) option"
    \<comment> \<open>what \<^verbatim>\<open>drawImage(img, 0, 0, width, height)\<close> drew: the image source and its
        destination width and height\<close>

text \<open>
  The browser, as far as \<^verbatim>\<open>App.tsx\<close> calls it.  \<open>load_image\<close> is the decoder behind
  \<^verbatim>\<open>img.src = ...\<close>: for a source that decodes, \<^verbatim>\<open>onload\<close> fires and \<^verbatim>\<open>img.width\<close>,
  \<^verbatim>\<open>img.height\<close> (both \<^verbatim>\<open>unsigned long\<close>) are the dimensions; for a source that does not
  decode, \<^verbatim>\<open>onload\<close> never fires (\<open>None\<close>).  \<open>encode_canvas\<close> is what
  \<^verbatim>\<open>canvas.toDataURL(type, quality)\<close> puts after the scheme \<^verbatim>\<open>data:\<close>.
\<close>

record platform =
  load_image :: "string \<Rightarrow> (32 word \<times> 32 word) option"
  getContext2d :: bool
  encode_canvas :: "Canvas \<Rightarrow> string \<Rightarrow> number \<Rightarrow> string"

datatype effect =
    SetImages "ImageData list"
  | AppendImages "ImageData list"
  | SetIsProcessing bool
  | Alert
  | SaveAs "(string \<times> string option) list" string

record AppState =
  images :: "ImageData list"
  isProcessing :: bool
  alerts :: nat
  downloads :: "(string \<times> (string \<times> string option) list) list"


section \<open>processImage\<close>

definition MAX_SIZE :: number where
  "MAX_SIZE = 1200"

text \<open>
  Lines 27 to 41 of \<^verbatim>\<open>processImage\<close>: the pair \<open>(width, height)\<close> after the two nested
  conditionals.  In the first branch \<^verbatim>\<open>height *= MAX_SIZE / width\<close> is executed before
  \<^verbatim>\<open>width = MAX_SIZE\<close>, in the second \<^verbatim>\<open>width *= MAX_SIZE / height\<close> before
  \<^verbatim>\<open>height = MAX_SIZE\<close>.
\<close>

definition scale_to_max :: "number \<Rightarrow> number \<Rightarrow> number \<times> number" where
  "scale_to_max width height =
     (if width > height then
        (if width > MAX_SIZE then (MAX_SIZE, js_mul height (js_div MAX_SIZE width))
         else (width, height))
      else
        (if height > MAX_SIZE then (js_mul width (js_div MAX_SIZE height), MAX_SIZE)
         else (width, height)))"

definition output_size :: "32 word \<Rightarrow> 32 word \<Rightarrow> nat \<times> nat" where
  \<comment> \<open>\<^verbatim>\<open>canvas.width = width; canvas.height = height\<close>: the size of the output bitmap\<close>
  "output_size img_width img_height =
     (case scale_to_max (of_nat (unat img_width)) (of_nat (unat img_height)) of
        (width, height) \<Rightarrow> (to_unsigned_long width, to_unsigned_long height))"

definition toDataURL :: "platform \<Rightarrow> Canvas \<Rightarrow> string \<Rightarrow> number \<Rightarrow> string" where
  "toDataURL env canvas type quality = ''data:'' @ encode_canvas env canvas type quality"

definition processImage :: "platform \<Rightarrow> ImageData \<Rightarrow> string promise" where
  "processImage env imgData =
     (case load_image env (preview imgData) of
        None \<Rightarrow> Pending
      | Some (img_width, img_height) \<Rightarrow>
          (case scale_to_max (of_nat (unat img_width)) (of_nat (unat img_height)) of
             (width, height) \<Rightarrow>
               Fulfilled (toDataURL env
                 \<lparr>canvas_width = to_unsigned_long width,
                  canvas_height = to_unsigned_long height,
                  canvas_image =
                    (if getContext2d env then Some (preview imgData, width, height) else None)\<rparr>
                 ''image/webp'' (fl (8 / 10)))))"


section \<open>handleStartOptimization\<close>

text \<open>
  \<^verbatim>\<open>Promise.all\<close>: fulfilled with all the values once every promise is fulfilled, rejected
  as soon as one is rejected, pending for ever otherwise.
\<close>

fun promise_all :: "'a promise list \<Rightarrow> 'a list promise" where
  "promise_all [] = Fulfilled []"
| "promise_all (p # ps) =
     (case p of
        Rejected e \<Rightarrow> Rejected e
      | Fulfilled x \<Rightarrow>
          (case promise_all ps of
             Fulfilled xs \<Rightarrow> Fulfilled (x # xs)
           | Rejected e \<Rightarrow> Rejected e
           | Pending \<Rightarrow> Pending)
      | Pending \<Rightarrow>
          (case promise_all ps of
             Rejected e \<Rightarrow> Rejected e
           | _ \<Rightarrow> Pending))"

definition optimize_item :: "platform \<Rightarrow> ImageData \<Rightarrow> ImageData promise" where
  \<comment> \<open>the \<^verbatim>\<open>async (img) => ...\<close> callback of \<^verbatim>\<open>images.map\<close>\<close>
  "optimize_item env img =
     (case processImage env img of
        Fulfilled url \<Rightarrow>
          Fulfilled (img\<lparr>resultUrl := Some url, preview := url, status := Done\<rparr>)
      | Rejected e \<Rightarrow> Rejected e
      | Pending \<Rightarrow> Pending)"

text \<open>
  The handler returns the effects it performs, in order, and the state of the promise it
  returns.  Everything after the \<^verbatim>\<open>await\<close> runs only if \<^verbatim>\<open>Promise.all\<close> is fulfilled.
\<close>

definition handleStartOptimization :: "platform \<Rightarrow> ImageData list \<Rightarrow> effect list \<times> unit promise" where
  "handleStartOptimization env imgs =
     (case promise_all (map (optimize_item env) imgs) of
        Fulfilled updatedImages \<Rightarrow>
          ([SetIsProcessing True, SetImages updatedImages, SetIsProcessing False, Alert],
           Fulfilled ())
      | Rejected e \<Rightarrow> ([SetIsProcessing True], Rejected e)
      | Pending \<Rightarrow> ([SetIsProcessing True], Pending))"

fun apply_effect :: "effect \<Rightarrow> AppState \<Rightarrow> AppState" where
  "apply_effect (SetImages imgs) st = st\<lparr>images := imgs\<rparr>"
| "apply_effect (AppendImages imgs) st = st\<lparr>images := images st @ imgs\<rparr>"
| "apply_effect (SetIsProcessing b) st = st\<lparr>isProcessing := b\<rparr>"
| "apply_effect Alert st = st\<lparr>alerts := alerts st + 1\<rparr>"
| "apply_effect (SaveAs entries zip_name) st =
     st\<lparr>downloads := downloads st @ [(zip_name, entries)]\<rparr>"

definition run_effects :: "effect list \<Rightarrow> AppState \<Rightarrow> AppState" where
  "run_effects effs st = fold apply_effect effs st"

definition runBatch :: "platform \<Rightarrow> AppState \<Rightarrow> AppState" where
  \<comment> \<open>the state a click on the start button leaves behind\<close>
  "runBatch env st = run_effects (fst (handleStartOptimization env (images st))) st"

definition showDownload :: "AppState \<Rightarrow> bool" where
  \<comment> \<open>line 174: \<^verbatim>\<open>images.some((img) => img.status === "done") && !isProcessing\<close>\<close>
  "showDownload st = (list_ex (\<lambda>img. status img = Done) (images st) \<and> \<not> isProcessing st)"

definition with_decode_failure :: "platform \<Rightarrow> string \<Rightarrow> platform" where
  \<comment> \<open>the same browser, except that the image at \<open>url\<close> does not decode\<close>
  "with_decode_failure env url = env\<lparr>load_image := (load_image env)(url := None)\<rparr>"


section \<open>handleFileChange\<close>

text \<open>
  \<open>fresh i\<close> is what \<^verbatim>\<open>Math.random().toString(36).substring(7)\<close> and
  \<^verbatim>\<open>URL.createObjectURL(file)\<close> return for the file at index \<open>i\<close> of the selection.
\<close>

definition handleFileChange :: "(nat \<Rightarrow> string \<times> string) \<Rightarrow> File list option \<Rightarrow> effect list" where
  "handleFileChange fresh files =
     (case files of
        None \<Rightarrow> []
      | Some fs \<Rightarrow>
          [AppendImages (map (\<lambda>(i, f).
             \<lparr>item_id = fst (fresh i), item_file = f, preview = snd (fresh i),
              status = Idle, resultUrl = None\<rparr>) (enumerate 0 fs))])"


section \<open>downloadAllAsZip\<close>

fun split_on :: "char \<Rightarrow> string \<Rightarrow> string list" where
  \<comment> \<open>\<^verbatim>\<open>s.split(c)\<close> for a separator of one character\<close>
  "split_on c [] = [[]]"
| "split_on c (x # xs) =
     (if x = c then [] # split_on c xs
      else (case split_on c xs of [] \<Rightarrow> [[x]] | y # ys \<Rightarrow> (x # y) # ys))"

definition base64Data :: "string \<Rightarrow> string option" where
  \<comment> \<open>\<^verbatim>\<open>resultUrl.split(",")[1]\<close>, \<open>None\<close> for \<^verbatim>\<open>undefined\<close>\<close>
  "base64Data url = (case split_on CHR '','' url of _ # b # _ \<Rightarrow> Some b | _ \<Rightarrow> None)"

fun matches_ext :: "string \<Rightarrow> bool" where
  \<comment> \<open>the whole string matches \<^verbatim>\<open>\.[^/.]+$\<close>\<close>
  "matches_ext [] = False"
| "matches_ext (c # cs) =
     (c = CHR ''.'' \<and> cs \<noteq> [] \<and> list_all (\<lambda>d. d \<noteq> CHR ''/'' \<and> d \<noteq> CHR ''.'') cs)"

fun replace_ext :: "string \<Rightarrow> string" where
  \<comment> \<open>\<^verbatim>\<open>name.replace(/\.[^/.]+$/, "")\<close>: the leftmost match, which reaches the end of the
      string, is removed\<close>
  "replace_ext [] = []"
| "replace_ext (c # cs) = (if matches_ext (c # cs) then [] else c # replace_ext cs)"

definition fileName :: "ImageData \<Rightarrow> string" where
  "fileName img = replace_ext (file_name (item_file img)) @ ''.webp''"

definition zip_file_call :: "ImageData \<Rightarrow> (string \<times> string option) option" where
  \<comment> \<open>the body of \<^verbatim>\<open>images.forEach\<close>: \<^verbatim>\<open>if (img.resultUrl)\<close> holds for a string that is
      defined and not empty\<close>
  "zip_file_call img =
     (case resultUrl img of
        None \<Rightarrow> None
      | Some url \<Rightarrow> if url = [] then None else Some (fileName img, base64Data url))"

text \<open>
  \<open>zip_files\<close> is the list of the calls \<^verbatim>\<open>zip.file(fileName, base64Data, {base64: true})\<close>,
  in the order in which \<^verbatim>\<open>forEach\<close> makes them.
\<close>

definition zip_files :: "ImageData list \<Rightarrow> (string \<times> string option) list" where
  "zip_files imgs = List.map_filter zip_file_call imgs"

text \<open>
  The JSZip object keeps its entries under their names (\<^verbatim>\<open>this.files[name] = ...\<close>), in
  the order in which the names were first added: \<^verbatim>\<open>zip.file(name, data)\<close> appends an entry
  when the name is new and replaces the data of the entry of that name, at its place,
  otherwise.  The names are file names as the file input gives them, without a path, so no
  folder entries arise.  \<open>zip_archive\<close> is the object after all the calls, starting from the
  empty \<^verbatim>\<open>new JSZip()\<close>; it is what \<^verbatim>\<open>generateAsync\<close> serialises and \<^verbatim>\<open>saveAs\<close> saves as
  \<^verbatim>\<open>optimized_images.zip\<close>.
\<close>

fun zip_file :: "string \<Rightarrow> string option \<Rightarrow> (string \<times> string option) list
    \<Rightarrow> (string \<times> string option) list" where
  "zip_file name data [] = [(name, data)]"
| "zip_file name data ((n, d) # files) =
     (if n = name then (name, data) # files else (n, d) # zip_file name data files)"

definition zip_archive :: "ImageData list \<Rightarrow> (string \<times> string option) list" where
  "zip_archive imgs = fold (\<lambda>(name, data) zip. zip_file name data zip) (zip_files imgs) []"

definition downloadAllAsZip :: "ImageData list \<Rightarrow> effect list" where
  "downloadAllAsZip imgs = [SaveAs (zip_archive imgs) ''optimized_images.zip'']"


section \<open>Invariants and example data\<close>

definition output_iff_done :: "ImageData \<Rightarrow> bool" where
  "output_iff_done img = ((resultUrl img \<noteq> None) = (status img = Done))"

definition item_ok :: "ImageData \<Rightarrow> bool" where
  \<comment> \<open>an item as the handlers leave it: a result exactly when done, and a result is a
      \<^verbatim>\<open>data:\<close> URL, never the empty string\<close>
  "item_ok img =
     (case resultUrl img of
        None \<Rightarrow> status img \<noteq> Done
      | Some url \<Rightarrow> status img = Done \<and> url \<noteq> [])"

definition example_platform :: platform where
  "example_platform =
     \<lparr>load_image = (\<lambda>url.
        if url = ''blob:photo'' then Some (800, 600)
        else if url = ''blob:logo'' then Some (640, 640)
        else if url = ''blob:empty'' then Some (0, 0)
        else None),
      getContext2d = True,
      encode_canvas = (\<lambda>canvas type quality.
        if canvas_width canvas = 0 \<or> canvas_height canvas = 0 then '',''
        else type @ '';base64,UklGRg=='')\<rparr>"

definition example_item :: "string \<Rightarrow> string \<Rightarrow> ImageData" where
  "example_item n url =
     \<lparr>item_id = n, item_file = \<lparr>file_name = n, file_size = 1024\<rparr>, preview = url,
      status = Idle, resultUrl = None\<rparr>"

definition example_done :: "string \<Rightarrow> ImageData" where
  "example_done n =
     \<lparr>item_id = n, item_file = \<lparr>file_name = n, file_size = 1024\<rparr>,
      preview = ''data:image/webp;base64,UklGRg=='',
      status = Done, resultUrl = Some ''data:image/webp;base64,UklGRg==''\<rparr>"


definition example_state :: "ImageData list \<Rightarrow> AppState" where
  "example_state imgs = \<lparr>images = imgs, isProcessing = False, alerts = 0, downloads = []\<rparr>"


section \<open>Rounding to binary64: bounds\<close>

lemma powi_le_iff: "(2::rat) powi a \<le> 2 powi b \<longleftrightarrow> a \<le> b"
  by (metis linorder_not_le numeral_One numeral_less_iff power_int_strict_increasing
      power_int_increasing semiring_norm(76) one_le_numeral)

lemma powi_less_iff: "(2::rat) powi a < 2 powi b \<longleftrightarrow> a < b"
  by (metis linorder_less_linear numeral_One numeral_less_iff
    order_less_imp_not_less power_int_strict_increasing
    semiring_norm(76))

lemma rhe_err: "\<bar>of_int (round_half_even y) - y\<bar> \<le> 1 / 2"
proof -
  have "of_int \<lfloor>y\<rfloor> \<le> y" "y < of_int \<lfloor>y\<rfloor> + 1" by linarith+
  then show ?thesis
    unfolding round_half_even_def Let_def by (simp add: abs_if) linarith
qed

lemma rhe_unique: "\<bar>y - of_int m\<bar> < 1 / 2 \<Longrightarrow> round_half_even y = m"
proof -
  assume a: "\<bar>y - of_int m\<bar> < 1 / 2"
  have "\<lfloor>y\<rfloor> = m \<or> \<lfloor>y\<rfloor> = m - 1"
    using a by linarith
  then show ?thesis
    using a unfolding round_half_even_def Let_def
    by auto
qed

lemma ilog2_bounds:
  assumes "0 < x"
  shows "2 powi (ilog2 x) \<le> x" and "x < 2 powi (ilog2 x + 1)"
proof -
  obtain p q where pq: "quotient_of x = (p, q)" by (cases "quotient_of x")
  have q: "0 < q" using pq by (rule quotient_of_denom_pos)
  have x: "x = of_int p / of_int q" using pq by (rule quotient_of_div)
  have p: "0 < p"
    using assms q x by (simp add: zero_less_divide_iff)
  define bp where "bp = floorlog 2 (nat p)"
  define bq where "bq = floorlog 2 (nat q)"
  have bp: "2 ^ (bp - 1) \<le> nat p" "nat p < 2 ^ bp"
    using floorlog_bounds [of "nat p" 2] p by (simp_all add: bp_def)
  have bq: "2 ^ (bq - 1) \<le> nat q" "nat q < 2 ^ bq"
    using floorlog_bounds [of "nat q" 2] q by (simp_all add: bq_def)
  have bp0: "0 < bp" using bp(2) less_one p by fastforce
  have bq0: "0 < bq" using bq(2) less_one q by fastforce
  have rp: "(2::rat) ^ (bp - 1) \<le> of_int p" "of_int p < (2::rat) ^ bp"
  proof -
    have "(of_nat (2 ^ (bp - 1)) :: rat) \<le> of_nat (nat p)"
      using bp(1) by (simp only: of_nat_le_iff)
    then show "(2::rat) ^ (bp - 1) \<le> of_int p" using p by simp
    have "(of_nat (nat p) :: rat) < of_nat (2 ^ bp)"
      using bp(2) by (simp only: of_nat_less_iff)
    then show "of_int p < (2::rat) ^ bp" using p by simp
  qed
  have rq: "(2::rat) ^ (bq - 1) \<le> of_int q" "of_int q \<le> (2::rat) ^ bq"
  proof -
    have "(of_nat (2 ^ (bq - 1)) :: rat) \<le> of_nat (nat q)"
      using bq(1) by (simp only: of_nat_le_iff)
    then show "(2::rat) ^ (bq - 1) \<le> of_int q" using q by simp
    have "(of_nat (nat q) :: rat) < of_nat (2 ^ bq)"
      using bq(2) by (simp only: of_nat_less_iff)
    then show "of_int q \<le> (2::rat) ^ bq" using q by simp
  qed
  have "2 powi (int bp - int bq - 1) = (2::rat) powi (int (bp - 1) - int bq)"
    using bp0 by (simp add: of_nat_diff algebra_simps)
  also have "\<dots> = (2::rat) ^ (bp - 1) / 2 ^ bq"
    by (simp add: power_int_diff)
  also have "\<dots> \<le> of_int p / of_int q"
    using rp(1) rq(2) p q by (intro frac_le) simp_all
  finally have lo: "2 powi (int bp - int bq - 1) \<le> x" by (simp add: x)
  have "x = of_int p / of_int q" by (rule x)
  also have "\<dots> < (2::rat) ^ bp / 2 ^ (bq - 1)"
    using rp(2) rq(1) p by (intro frac_less) simp_all
  also have "\<dots> = (2::rat) powi (int bp - int (bq - 1))"
    by (simp add: power_int_diff)
  also have "\<dots> = 2 powi (int bp - int bq + 1)"
    using bq0 by (simp add: of_nat_diff algebra_simps)
  finally have hi: "x < 2 powi (int bp - int bq + 1)" .
  have e: "ilog2 x = (if 2 powi (int bp - int bq) \<le> x then int bp - int bq else int bp - int bq - 1)"
    by (simp add: ilog2_def pq bp_def bq_def Let_def)
  show "2 powi (ilog2 x) \<le> x" using lo by (simp add: e)
  show "x < 2 powi (ilog2 x + 1)" using hi by (auto simp add: e)
qed

lemma ilog2_unique:
  assumes "0 < x" "2 powi k \<le> x" "x < 2 powi (k + 1)"
  shows "ilog2 x = k"
proof -
  have "2 powi (ilog2 x) < (2::rat) powi (k + 1)"
    using ilog2_bounds(1) [OF assms(1)] assms(3) by (rule le_less_trans)
  moreover have "(2::rat) powi k < 2 powi (ilog2 x + 1)"
    using assms(2) ilog2_bounds(2) [OF assms(1)] by (rule le_less_trans)
  ultimately show ?thesis by (simp add: powi_less_iff)
qed

lemma fl_error:
  assumes "0 < x"
  shows "\<bar>fl x - x\<bar> \<le> x / 2 ^ 53"
proof -
  define u :: rat where "u = 2 powi (ilog2 x - 52)"
  have u0: "0 < u" by (simp add: u_def)
  have "u = 2 powi (ilog2 x) / 2 ^ 52"
    by (simp add: u_def power_int_diff)
  also have "\<dots> \<le> x / 2 ^ 52"
    using ilog2_bounds(1) [OF assms] by (simp add: divide_right_mono)
  finally have ux: "u \<le> x / 2 ^ 52" .
  have flx: "fl x = of_int (round_half_even (x / u)) * u"
    using assms by (simp add: fl_def u_def Let_def)
  have "fl x - x = (of_int (round_half_even (x / u)) - x / u) * u"
    using u0 by (simp add: flx field_simps)
  then have "\<bar>fl x - x\<bar> = \<bar>of_int (round_half_even (x / u)) - x / u\<bar> * u"
    using u0 by (simp add: abs_mult)
  also have "\<dots> \<le> (1 / 2) * u"
    using rhe_err [of "x / u"] u0 by (intro mult_right_mono) simp_all
  also have "\<dots> \<le> (1 / 2) * (x / 2 ^ 52)"
    using ux by simp
  finally show ?thesis by simp
qed

lemma fl_eqI:
  assumes "0 < u" "u = 2 powi e" "2 ^ 52 * u \<le> x" "x < 2 ^ 53 * u"
    and "\<bar>x - of_int m * u\<bar> < u / 2"
  shows "fl x = of_int m * u"
proof -
  have x0: "0 < x" using assms(1,3) 
    by (meson less_le_trans mult_pos_pos zero_less_numeral zero_less_power)
  have "ilog2 x = e + 52"
  proof (rule ilog2_unique [OF x0])
    show "2 powi (e + 52) \<le> x" using assms(2,3) by (simp add: power_int_add mult.commute)
    show "x < 2 powi (e + 52 + 1)" using assms(2,4) by (simp add: power_int_add mult.commute)
  qed
  then have u: "2 powi (ilog2 x - 52) = u" by (simp add: assms(2))
  have "(x / u - of_int m) * u = x - of_int m * u"
    using assms(1) by (simp add: field_simps)
  then have "\<bar>x - of_int m * u\<bar> = \<bar>x / u - of_int m\<bar> * \<bar>u\<bar>"
    by (simp only: abs_mult [symmetric])
  then have "\<bar>x / u - of_int m\<bar> * u = \<bar>x - of_int m * u\<bar>"
    using assms(1) by simp
  then have "\<bar>x / u - of_int m\<bar> * u < (1 / 2) * u" using assms(5) by simp
  then have "\<bar>x / u - of_int m\<bar> < 1 / 2" using assms(1) by simp
  then have "round_half_even (x / u) = m" by (rule rhe_unique)
  then show ?thesis using x0 by (simp add: fl_def u Let_def)
qed


lemma fl_zero: "fl 0 = 0"
  by (simp add: fl_def)

lemma fl_scaled_error:
  fixes a b :: nat
  assumes a: "a \<le> b" and b: "1200 < b"
  shows "\<bar>fl (of_nat a * fl (1200 / of_nat b)) - 1200 * of_nat a / of_nat b\<bar> \<le> 3600 / 2 ^ 53"
proof (cases "a = 0")
  case True
  then show ?thesis by (simp add: fl_zero)
next
  case False
  define c :: rat where "c = 1200 / of_nat b"
  define r where "r = fl c"
  define E :: rat where "E = 1200 * of_nat a / of_nat b"
  define z where "z = of_nat a * r"
  have c0: "0 < c" using b by (simp add: c_def)
  have a0: "0 < (of_nat a :: rat)" using False by simp
  have E0: "0 < E" using False b by (simp add: E_def)
  have Ec: "E = of_nat a * c" by (simp add: E_def c_def)
  have "(of_nat a :: rat) \<le> of_nat b" using a by (simp only: of_nat_le_iff)
  then have E1: "E \<le> 1200" using b by (simp add: E_def field_simps)
  have r: "\<bar>r - c\<bar> \<le> c / 2 ^ 53" unfolding r_def using c0 by (rule fl_error)
  have "z - E = of_nat a * (r - c)" by (simp add: z_def Ec algebra_simps)
  then have "\<bar>z - E\<bar> = of_nat a * \<bar>r - c\<bar>" using a0 by (simp add: abs_mult)
  also have "\<dots> \<le> of_nat a * (c / 2 ^ 53)" using r a0 by (intro mult_left_mono) simp_all
  finally have zE: "\<bar>z - E\<bar> \<le> E / 2 ^ 53" by (simp add: Ec)
  have e53: "(2::rat) ^ 53 = 9007199254740992" by simp
  have z0: "0 < z" using zE E0 unfolding e53 by linarith
  have y: "\<bar>fl z - z\<bar> \<le> z / 2 ^ 53" using z0 by (rule fl_error)
  have "\<bar>fl z - E\<bar> \<le> 3600 / 2 ^ 53" using y zE E1 E0 unfolding e53 by linarith
  then show ?thesis by (simp add: z_def r_def c_def E_def)
qed

lemma scaled_floor:
  fixes a b :: nat
  assumes a: "a \<le> b" and b: "1200 < b" and b32: "b < 2 ^ 32"
  shows "\<lfloor>fl (of_nat a * fl (1200 / of_nat b))\<rfloor> = int ((1200 * a) div b)
       \<or> (b dvd 1200 * a \<and> \<lfloor>fl (of_nat a * fl (1200 / of_nat b))\<rfloor> = int ((1200 * a) div b) - 1)"
proof -
  define y where "y = fl (of_nat a * fl (1200 / of_nat b))"
  define q where "q = (1200 * a) div b"
  define m where "m = (1200 * a) mod b"
  define E :: rat where "E = 1200 * of_nat a / of_nat b"
  have b0: "0 < (of_nat b :: rat)" using b by simp
  have err: "\<bar>y - E\<bar> \<le> 3600 / 2 ^ 53"
    unfolding y_def E_def using a b by (rule fl_scaled_error)
  have "1200 * a = q * b + m" by (simp add: q_def m_def)
  then have "(of_nat (1200 * a) :: rat) = of_nat (q * b + m)" by (simp only:)
  then have E: "E = of_nat q + of_nat m / of_nat b"
    using b0 by (simp add: E_def field_simps)
  have "(of_nat b :: rat) < of_nat (2 ^ 32)" using b32 by (simp only: of_nat_less_iff)
  then have "(of_nat b :: rat) < 2 ^ 32" by simp
  then have binv: "1 / 2 ^ 32 < 1 / (of_nat b :: rat)"
    using b0 by (simp add: field_simps)
  show ?thesis
  proof (cases "m = 0")
    case True
    then have "b dvd 1200 * a" by (simp add: m_def dvd_eq_mod_eq_0)
    moreover have "E = of_nat q" using True E by simp
    then have "\<lfloor>y\<rfloor> = int q \<or> \<lfloor>y\<rfloor> = int q - 1"
    proof -
      have e53: "(2::rat) ^ 53 = 9007199254740992" by simp
      assume "E = of_nat q"
      then have "of_nat q - 1 \<le> y" "y < of_nat q + 1"
        using err unfolding e53 by linarith+
      then have "of_int (int q - 1) \<le> y" "y < of_int (int q - 1) + 2" by simp_all
      then show ?thesis by linarith
    qed
    ultimately show ?thesis by (auto simp: y_def q_def)
  next
    case False
    have "m < b" using b by (simp add: m_def)
    then have "m + 1 \<le> b" by simp
    then have "(of_nat (m + 1) :: rat) \<le> of_nat b" by (simp only: of_nat_le_iff)
    then have mb: "of_nat m + 1 \<le> (of_nat b :: rat)" by simp
    have lo: "1 / of_nat b \<le> of_nat m / (of_nat b :: rat)"
      using False b0 by (simp add: field_simps)
    have hi: "of_nat m / (of_nat b :: rat) \<le> 1 - 1 / of_nat b"
      using mb b0 by (simp add: field_simps)
    have e53: "(2::rat) ^ 53 = 9007199254740992" and e32: "(2::rat) ^ 32 = 4294967296"
      by simp_all
    have "of_nat q < y" "y < of_nat q + 1"
      using lo hi binv err E unfolding e53 e32 by linarith+
    then have "\<lfloor>y\<rfloor> = int q" by (simp add: floor_eq_iff)
    then show ?thesis by (simp add: y_def q_def)
  qed
qed


section \<open>The size of the output bitmap\<close>

lemma fl_nonneg: "0 \<le> x \<Longrightarrow> 0 \<le> fl x"
proof -
  assume x: "0 \<le> x"
  have "0 \<le> round_half_even y" if "0 \<le> y" for y
  proof -
    have "0 \<le> \<lfloor>y\<rfloor>" using that by simp
    then show ?thesis by (simp add: round_half_even_def Let_def)
  qed
  then have "0 \<le> round_half_even (\<bar>x\<bar> / 2 powi (ilog2 \<bar>x\<bar> - 52))" by simp
  then show ?thesis using x by (simp add: fl_def Let_def sgn_if)
qed

lemma to_unsigned_long_floor:
  "0 \<le> x \<Longrightarrow> \<lfloor>x\<rfloor> < 2 ^ 32 \<Longrightarrow> to_unsigned_long x = nat \<lfloor>x\<rfloor>"
  by (simp add: to_unsigned_long_def)

lemma to_unsigned_long_of_nat: "n < 2 ^ 32 \<Longrightarrow> to_unsigned_long (of_nat n) = n"
  by (simp add: to_unsigned_long_def)

lemma unat_32: "unat (w :: 32 word) < 2 ^ 32"
  using unsigned_less [of w] by simp

lemma to_unsigned_long_unat:
  "to_unsigned_long (of_nat (unat (w :: 32 word))) = unat w"
  using unat_32 by (rule to_unsigned_long_of_nat)

lemma scale_to_max_small:
  "w \<le> 1200 \<Longrightarrow> h \<le> 1200 \<Longrightarrow> scale_to_max w h = (w, h)"
  by (simp add: scale_to_max_def MAX_SIZE_def)

lemma output_size_small:
  assumes w: "unat img_width \<le> 1200" and h: "unat img_height \<le> 1200"
  shows "output_size img_width img_height = (unat img_width, unat img_height)"
proof -
  have "(of_nat (unat img_width) :: rat) \<le> of_nat 1200" "(of_nat (unat img_height) :: rat) \<le> of_nat 1200"
    using w h by (simp_all only: of_nat_le_iff)
  then have "scale_to_max (of_nat (unat img_width)) (of_nat (unat img_height))
      = (of_nat (unat img_width), of_nat (unat img_height))"
    by (intro scale_to_max_small) simp_all
  then show ?thesis
    by (simp add: output_size_def to_unsigned_long_unat del: of_nat_unat)
qed

text \<open>
  Claim C5.  An image whose width and height are both at most \<open>MAX_SIZE = 1200\<close> keeps
  its size: the output bitmap has exactly the width and the height of the input.
\<close>

theorem small_image_unchanged:
  "unat img_width \<le> 1200 \<Longrightarrow> unat img_height \<le> 1200 \<Longrightarrow>
   output_size img_width img_height = (unat img_width, unat img_height)"
  by (rule output_size_small)

theorem small_image_unchanged_witness:
  "unat (800 :: 32 word) \<le> 1200 \<and> unat (600 :: 32 word) \<le> 1200
   \<and> output_size 800 600 = (800, 600)"
  using small_image_unchanged [of 800 600] by simp


lemma scaled_dimension:
  fixes a b :: nat
  assumes a: "a \<le> b" and b: "1200 < b" and b32: "b < 2 ^ 32"
  defines "d \<equiv> to_unsigned_long (js_mul (of_nat a) (js_div MAX_SIZE (of_nat b)))"
  shows "d = nat \<lfloor>fl (of_nat a * fl (1200 / of_nat b))\<rfloor>"
    and "int d = int ((1200 * a) div b) \<or> (b dvd 1200 * a \<and> int d = int ((1200 * a) div b) - 1)"
proof -
  define y where "y = fl (of_nat a * fl (1200 / of_nat b))"
  have y0: "0 \<le> y" unfolding y_def by (intro fl_nonneg mult_nonneg_nonneg) simp_all
  then have f0: "0 \<le> \<lfloor>y\<rfloor>" by simp
  have "1200 * a \<le> 1200 * b" using a by simp
  then have "(1200 * a) div b \<le> (1200 * b) div b" by (rule div_le_mono)
  then have q: "(1200 * a) div b \<le> 1200" using b by simp
  have fl: "\<lfloor>y\<rfloor> = int ((1200 * a) div b) \<or> (b dvd 1200 * a \<and> \<lfloor>y\<rfloor> = int ((1200 * a) div b) - 1)"
    unfolding y_def using a b b32 by (rule scaled_floor)
  then have "\<lfloor>y\<rfloor> \<le> 1200" using q by (elim disjE conjE) linarith+
  then have "\<lfloor>y\<rfloor> < 2 ^ 32" by simp
  with y0 have "to_unsigned_long y = nat \<lfloor>y\<rfloor>" by (rule to_unsigned_long_floor)
  then have d: "d = nat \<lfloor>y\<rfloor>" by (simp add: d_def y_def js_mul_def js_div_def MAX_SIZE_def)
  then show "d = nat \<lfloor>fl (of_nat a * fl (1200 / of_nat b))\<rfloor>" by (simp add: y_def)
  from d f0 have "int d = \<lfloor>y\<rfloor>" by simp
  with fl show "int d = int ((1200 * a) div b) \<or> (b dvd 1200 * a \<and> int d = int ((1200 * a) div b) - 1)"
    by simp
qed

lemma to_unsigned_long_MAX_SIZE: "to_unsigned_long MAX_SIZE = 1200"
  by (simp add: to_unsigned_long_def MAX_SIZE_def)

lemma output_size_width_branch:
  assumes "unat ih < unat iw" "1200 < unat iw"
  shows "output_size iw ih =
    (1200, to_unsigned_long (js_mul (of_nat (unat ih)) (js_div MAX_SIZE (of_nat (unat iw)))))"
proof -
  have "(of_nat (unat ih) :: rat) < of_nat (unat iw)" "(of_nat 1200 :: rat) < of_nat (unat iw)"
    using assms by (simp_all only: of_nat_less_iff)
  then show ?thesis
    unfolding output_size_def scale_to_max_def MAX_SIZE_def
    by (simp add: to_unsigned_long_def del: of_nat_unat)
qed

lemma output_size_height_branch:
  assumes "unat iw \<le> unat ih" "1200 < unat ih"
  shows "output_size iw ih =
    (to_unsigned_long (js_mul (of_nat (unat iw)) (js_div MAX_SIZE (of_nat (unat ih)))), 1200)"
proof -
  have "(of_nat (unat iw) :: rat) \<le> of_nat (unat ih)" "(of_nat 1200 :: rat) < of_nat (unat ih)"
    using assms by (simp_all only: of_nat_le_iff of_nat_less_iff)
  then show ?thesis
    unfolding output_size_def scale_to_max_def MAX_SIZE_def
    by (simp add: to_unsigned_long_def del: of_nat_unat)
qed

text \<open>
  Claim C4, as amended.  For an image with width \<open>W\<close> greater than its height \<open>H\<close> and
  greater than 1200 the output width is exactly 1200.  The output height is the product
  \<open>H * (1200 / W)\<close> computed in doubles, with its fraction cut off by the assignment to
  \<^verbatim>\<open>canvas.height\<close>; it is not rounded to the nearest integer.  It equals the integer
  quotient \<open>1200 * H div W\<close>, or one less when \<open>W\<close> divides \<open>1200 * H\<close> and the product in
  doubles falls just below that integer; so it is within 1 unit of \<open>H * 1200 / W\<close>.
\<close>

theorem landscape_scaled_size:
  assumes "unat img_height < unat img_width" and "1200 < unat img_width"
  shows "fst (output_size img_width img_height) = 1200
    \<and> snd (output_size img_width img_height)
        = nat \<lfloor>fl (of_nat (unat img_height) * fl (1200 / of_nat (unat img_width)))\<rfloor>
    \<and> (int (snd (output_size img_width img_height)) = int (1200 * unat img_height div unat img_width)
       \<or> (unat img_width dvd 1200 * unat img_height
          \<and> int (snd (output_size img_width img_height))
              = int (1200 * unat img_height div unat img_width) - 1))"
proof -
  have le: "unat img_height \<le> unat img_width" using assms(1) by simp
  note d = scaled_dimension [OF le assms(2) unat_32]
  show ?thesis
    unfolding output_size_width_branch [OF assms] fst_conv snd_conv
    using d by blast
qed

theorem landscape_scaled_size_witness:
  "unat (1000 :: 32 word) < unat (2000 :: 32 word) \<and> 1200 < unat (2000 :: 32 word)
   \<and> fst (output_size 2000 1000) = 1200
   \<and> (snd (output_size 2000 1000) = 600 \<or> snd (output_size 2000 1000) = 599)"
proof -
  have h: "unat (1000 :: 32 word) < unat (2000 :: 32 word)" "1200 < unat (2000 :: 32 word)"
    by simp_all
  note t = landscape_scaled_size [OF h]
  have "fst (output_size 2000 1000) = 1200" using t by (rule conjunct1)
  moreover have "snd (output_size 2000 1000) = 600 \<or> snd (output_size 2000 1000) = 599"
    using t [THEN conjunct2, THEN conjunct2] by auto
  ultimately show ?thesis using h by simp
qed

subsection \<open>Concrete roundings\<close>

text \<open>
  The doubles \<open>1200 / W\<close> and \<open>H * (1200 / W)\<close> for three images, each certified by its
  significand and exponent (\<open>fl_eqI\<close>).
\<close>

lemma floor_rat_numeral:
  "\<lfloor>numeral a / numeral b :: rat\<rfloor> = numeral a div numeral b"
  by (metis floor_divide_of_int_eq of_int_numeral)

lemma fl_div_2191: "fl (1200 / 2191) = 1233299761032541 / 2251799813685248"
proof -
  have "fl (1200 / 2191) = of_int 4933199044130164 * (1 / 2 ^ 53)"
    by (rule fl_eqI [where e = "-53"]) (simp_all add: power_int_minus_divide)
  then show ?thesis by simp
qed

lemma fl_mul_2191_2191: "fl (2702159776422297331 / 2251799813685248) = 5277655813324799 / 4398046511104"
proof -
  have "fl (2702159776422297331 / 2251799813685248) = of_int 5277655813324799 * (1 / 2 ^ 42)"
    by (rule fl_eqI [where e = "-42"]) (simp_all add: power_int_minus_divide)
  then show ?thesis by simp
qed

lemma scaled_2191_2191: "js_mul 2191 (js_div MAX_SIZE 2191) = 5277655813324799 / 4398046511104"
  by (simp add: js_mul_def js_div_def MAX_SIZE_def fl_div_2191 fl_mul_2191_2191)

lemma fl_div_1392: "fl (25 / 29) = 3882413471871117 / 4503599627370496"
proof -
  have "fl (25 / 29) = of_int 7764826943742234 * (1 / 2 ^ 53)"
    by (rule fl_eqI [where e = "-53"]) (simp_all add: power_int_minus_divide)
  then show ?thesis by simp
qed

lemma fl_mul_145_1392: "fl (562949953421311965 / 4503599627370496) = 8796093022207999 / 70368744177664"
proof -
  have "fl (562949953421311965 / 4503599627370496) = of_int 8796093022207999 * (1 / 2 ^ 46)"
    by (rule fl_eqI [where e = "-46"]) (simp_all add: power_int_minus_divide)
  then show ?thesis by simp
qed

lemma scaled_145_1392: "js_mul 145 (js_div MAX_SIZE 1392) = 8796093022207999 / 70368744177664"
  by (simp add: js_mul_def js_div_def MAX_SIZE_def fl_div_1392 fl_mul_145_1392)

lemma fl_div_2000: "fl (3 / 5) = 5404319552844595 / 9007199254740992"
proof -
  have "fl (3 / 5) = of_int 5404319552844595 * (1 / 2 ^ 53)"
    by (rule fl_eqI [where e = "-53"]) (simp_all add: power_int_minus_divide)
  then show ?thesis by simp
qed

lemma fl_mul_1001_2000: "fl (5409723872397439595 / 9007199254740992) = 5282933469138125 / 8796093022208"
proof -
  have "fl (5409723872397439595 / 9007199254740992) = of_int 5282933469138125 * (1 / 2 ^ 43)"
    by (rule fl_eqI [where e = "-43"]) (simp_all add: power_int_minus_divide)
  then show ?thesis by simp
qed

lemma scaled_1001_2000: "js_mul 1001 (js_div MAX_SIZE 2000) = 5282933469138125 / 8796093022208"
  by (simp add: js_mul_def js_div_def MAX_SIZE_def fl_div_2000 fl_mul_1001_2000)

text \<open>
  Claim C4 as stated fails.  A 1392 x 145 image comes out 1200 x 124 although
  \<open>145 * 1200 / 1392\<close> is exactly 125: the double \<open>1200 / 1392\<close> lies below \<open>25 / 29\<close>, the
  product is 124.99999999999999 and its fraction is cut off.  A 2000 x 1001 image comes out
  1200 x 600, where 600.6 rounded is 601.
\<close>

theorem landscape_height_counterexample:
  "output_size 1392 145 = (1200, 124) \<and> (145 * 1200 / 1392 :: rat) = 125
   \<and> output_size 2000 1001 = (1200, 600) \<and> round (1001 * 1200 / 2000 :: rat) = 601"
proof -
  have a: "output_size 1392 145 = (1200, 124)"
    by (simp add: output_size_width_branch scaled_145_1392 to_unsigned_long_def floor_rat_numeral)
  have b: "output_size 2000 1001 = (1200, 600)"
    by (simp add: output_size_width_branch scaled_1001_2000 to_unsigned_long_def floor_rat_numeral)
  have c: "round (1001 * 1200 / 2000 :: rat) = 601"
    by (simp add: round_def floor_eq_iff)
  show ?thesis using a b c by simp
qed

text \<open>
  Claim C6, as amended.  For a square image with side greater than 1200 the test
  \<^verbatim>\<open>width > height\<close> is false, so the second branch (the height branch) scales it: the
  output height is exactly 1200 and the output width is \<open>W * (1200 / W)\<close> computed in doubles
  with its fraction cut off, which is 1200 or 1199.
\<close>

theorem square_scaled_size:
  assumes "1200 < unat side"
  shows "scale_to_max (of_nat (unat side)) (of_nat (unat side))
      = (js_mul (of_nat (unat side)) (js_div MAX_SIZE (of_nat (unat side))), MAX_SIZE)
    \<and> snd (output_size side side) = 1200
    \<and> (fst (output_size side side) = 1200 \<or> fst (output_size side side) = 1199)"
proof -
  have "(of_nat 1200 :: rat) < of_nat (unat side)"
    using assms by (simp only: of_nat_less_iff)
  then have branch: "scale_to_max (of_nat (unat side)) (of_nat (unat side))
      = (js_mul (of_nat (unat side)) (js_div MAX_SIZE (of_nat (unat side))), MAX_SIZE)"
    by (simp add: scale_to_max_def MAX_SIZE_def del: of_nat_unat)
  have "int (to_unsigned_long (js_mul (of_nat (unat side)) (js_div MAX_SIZE (of_nat (unat side)))))
        = int ((1200 * unat side) div unat side)
      \<or> (unat side dvd 1200 * unat side
         \<and> int (to_unsigned_long (js_mul (of_nat (unat side)) (js_div MAX_SIZE (of_nat (unat side)))))
            = int ((1200 * unat side) div unat side) - 1)"
    using assms unat_32 by (intro scaled_dimension(2)) simp_all
  moreover have "(1200 * unat side) div unat side = 1200" using assms by simp
  ultimately have "to_unsigned_long (js_mul (of_nat (unat side)) (js_div MAX_SIZE (of_nat (unat side)))) = 1200
      \<or> to_unsigned_long (js_mul (of_nat (unat side)) (js_div MAX_SIZE (of_nat (unat side)))) = 1199"
    by auto
  then show ?thesis
    using branch by (simp add: output_size_height_branch [OF order_refl assms])
qed

theorem square_scaled_size_witness:
  "1200 < unat (2400 :: 32 word)
   \<and> scale_to_max 2400 2400 = (js_mul 2400 (js_div MAX_SIZE 2400), MAX_SIZE)
   \<and> snd (output_size 2400 2400) = 1200
   \<and> (fst (output_size 2400 2400) = 1200 \<or> fst (output_size 2400 2400) = 1199)"
  using square_scaled_size [of 2400] by simp

text \<open>
  Claim C6 as stated fails: a 2191 x 2191 image comes out 1199 x 1200.  It is scaled by the
  height branch, and \<open>2191 * (1200 / 2191)\<close> is 1199.9999999999998 in doubles.
\<close>

theorem square_width_counterexample:
  "output_size 2191 2191 = (1199, 1200)"
  by (simp add: output_size_height_branch scaled_2191_2191 to_unsigned_long_def floor_rat_numeral)


section \<open>Promises\<close>

lemma processImage_not_Rejected: "processImage env imgData \<noteq> Rejected e"
  by (simp add: processImage_def split: option.splits prod.splits)

lemma processImage_Pending_iff:
  "processImage env imgData = Pending \<longleftrightarrow> load_image env (preview imgData) = None"
  by (simp add: processImage_def split: option.splits prod.splits)

lemma processImage_Fulfilled_data:
  "processImage env imgData = Fulfilled url \<Longrightarrow> \<exists>rest. url = ''data:'' @ rest"
  by (auto simp add: processImage_def toDataURL_def split: option.splits prod.splits)

lemma processImage_loaded:
  "load_image env (preview imgData) = Some d \<Longrightarrow> \<exists>url. processImage env imgData = Fulfilled url"
  by (cases "processImage env imgData")
    (simp_all add: processImage_Pending_iff processImage_not_Rejected)

lemma optimize_item_not_Rejected: "optimize_item env img \<noteq> Rejected e"
  by (simp add: optimize_item_def processImage_not_Rejected split: promise.splits)

lemma optimize_item_Pending_iff:
  "optimize_item env img = Pending \<longleftrightarrow> load_image env (preview img) = None"
  by (simp add: optimize_item_def processImage_Pending_iff [symmetric] split: promise.splits)

lemma optimize_item_Fulfilled:
  assumes "optimize_item env img = Fulfilled img'"
  shows "status img' = Done" and "\<exists>rest. resultUrl img' = Some (''data:'' @ rest)"
    and "item_id img' = item_id img" and "item_file img' = item_file img"
proof -
  obtain url where u: "processImage env img = Fulfilled url"
    and i: "img' = img\<lparr>resultUrl := Some url, preview := url, status := Done\<rparr>"
    using assms by (auto simp add: optimize_item_def split: promise.splits)
  show "status img' = Done" "item_id img' = item_id img" "item_file img' = item_file img"
    by (simp_all add: i)
  show "\<exists>rest. resultUrl img' = Some (''data:'' @ rest)"
    using processImage_Fulfilled_data [OF u] by (simp add: i)
qed

lemma promise_all_map_Fulfilled: "promise_all (map Fulfilled xs) = Fulfilled xs"
  by (induction xs) simp_all

lemma promise_all_FulfilledD: "promise_all ps = Fulfilled xs \<Longrightarrow> ps = map Fulfilled xs"
proof (induction ps arbitrary: xs)
  case Nil
  then show ?case by simp
next
  case (Cons p ps)
  from Cons.prems obtain x ys where "p = Fulfilled x" "promise_all ps = Fulfilled ys" "xs = x # ys"
    by (auto split: promise.splits)
  then show ?case using Cons.IH by simp
qed

lemma promise_all_Fulfilled_iff:
  "promise_all ps = Fulfilled xs \<longleftrightarrow> ps = map Fulfilled xs"
  using promise_all_FulfilledD promise_all_map_Fulfilled by blast

lemma promise_all_not_Rejected:
  "(\<And>p e. p \<in> set ps \<Longrightarrow> p \<noteq> Rejected e) \<Longrightarrow> promise_all ps \<noteq> Rejected e"
  by (induction ps) (auto split: promise.splits)

lemma promise_all_Pending:
  "Pending \<in> set ps \<Longrightarrow> (\<And>p e. p \<in> set ps \<Longrightarrow> p \<noteq> Rejected e) \<Longrightarrow> promise_all ps = Pending"
proof (induction ps)
  case Nil
  then show ?case by simp
next
  case (Cons p ps)
  have nr: "promise_all ps \<noteq> Rejected e" for e
    using Cons.prems(2) by (intro promise_all_not_Rejected) simp
  show ?case
  proof (cases p)
    case Pending
    then show ?thesis using nr by (simp split: promise.splits)
  next
    case (Fulfilled x)
    then have "Pending \<in> set ps" using Cons.prems(1) by auto
    then have "promise_all ps = Pending" using Cons.prems(2) by (intro Cons.IH) simp_all
    then show ?thesis using Fulfilled by simp
  next
    case (Rejected e)
    then show ?thesis using Cons.prems(2) [of p e] by simp
  qed
qed

lemma promise_all_no_Pending:
  "Pending \<notin> set ps \<Longrightarrow> (\<And>p e. p \<in> set ps \<Longrightarrow> p \<noteq> Rejected e) \<Longrightarrow>
   \<exists>xs. promise_all ps = Fulfilled xs"
proof (induction ps)
  case Nil
  then show ?case by simp
next
  case (Cons p ps)
  have "\<exists>xs. promise_all ps = Fulfilled xs"
    using Cons.prems by (intro Cons.IH) simp_all
  moreover obtain x where "p = Fulfilled x"
    using Cons.prems(1) Cons.prems(2) [of p] by (cases p) auto
  ultimately show ?case by auto
qed

section \<open>handleStartOptimization\<close>

lemma start_pending:
  assumes "\<exists>img \<in> set imgs. load_image env (preview img) = None"
  shows "handleStartOptimization env imgs = ([SetIsProcessing True], Pending)"
proof -
  obtain img where "img \<in> set imgs" "optimize_item env img = Pending"
    using assms by (auto simp add: optimize_item_Pending_iff)
  then have "Pending \<in> set (map (optimize_item env) imgs)" by force
  then have "promise_all (map (optimize_item env) imgs) = Pending"
    by (rule promise_all_Pending) (auto simp add: optimize_item_not_Rejected)
  then show ?thesis by (simp add: handleStartOptimization_def)
qed

lemma start_fulfilled:
  assumes "\<forall>img \<in> set imgs. load_image env (preview img) \<noteq> None"
  shows "\<exists>updated. handleStartOptimization env imgs
      = ([SetIsProcessing True, SetImages updated, SetIsProcessing False, Alert], Fulfilled ())
    \<and> map (optimize_item env) imgs = map Fulfilled updated"
proof -
  have "optimize_item env img \<noteq> Pending" if "img \<in> set imgs" for img
    using assms that by (simp add: optimize_item_Pending_iff)
  then have np: "Pending \<notin> set (map (optimize_item env) imgs)"
    by force
  have nr: "p \<noteq> Rejected e" if "p \<in> set (map (optimize_item env) imgs)" for p e
    using that by (auto simp add: optimize_item_not_Rejected)
  from promise_all_no_Pending [OF np nr]
  obtain updated where u: "promise_all (map (optimize_item env) imgs) = Fulfilled updated"
    by blast
  then have "map (optimize_item env) imgs = map Fulfilled updated"
    by (simp add: promise_all_Fulfilled_iff)
  with u show ?thesis by (simp add: handleStartOptimization_def)
qed

lemma start_cases:
  "handleStartOptimization env imgs = ([SetIsProcessing True], Pending)
   \<or> (\<exists>updated. handleStartOptimization env imgs
        = ([SetIsProcessing True, SetImages updated, SetIsProcessing False, Alert], Fulfilled ())
      \<and> map (optimize_item env) imgs = map Fulfilled updated)"
proof (cases "\<exists>img \<in> set imgs. load_image env (preview img) = None")
  case True
  then show ?thesis by (simp add: start_pending)
next
  case False
  then have "\<forall>img \<in> set imgs. load_image env (preview img) \<noteq> None" by simp
  from start_fulfilled [OF this] show ?thesis by (rule disjI2)
qed

lemma updated_items:
  assumes "map (optimize_item env) imgs = map Fulfilled updated"
  shows "length updated = length imgs"
    and "\<And>img'. img' \<in> set updated \<Longrightarrow> status img' = Done \<and> (\<exists>rest. resultUrl img' = Some (''data:'' @ rest))"
    and "map item_id updated = map item_id imgs"
proof -
  have "length (map (optimize_item env) imgs) = length (map Fulfilled updated)"
    by (simp only: assms)
  then show len: "length updated = length imgs" by simp
  have nth: "optimize_item env (imgs ! i) = Fulfilled (updated ! i)" if "i < length imgs" for i
  proof -
    have "map (optimize_item env) imgs ! i = map Fulfilled updated ! i"
      by (simp only: assms)
    then show ?thesis using that len by simp
  qed
  show "status img' = Done \<and> (\<exists>rest. resultUrl img' = Some (''data:'' @ rest))"
    if m: "img' \<in> set updated" for img'
  proof -
    obtain i where "i < length updated" "updated ! i = img'"
      using m unfolding in_set_conv_nth by blast
    then have "optimize_item env (imgs ! i) = Fulfilled img'" using nth len by simp
    from optimize_item_Fulfilled(1,2) [OF this] show ?thesis by simp
  qed
  show "map item_id updated = map item_id imgs"
  proof (rule nth_equalityI)
    show "length (map item_id updated) = length (map item_id imgs)" using len by simp
    fix i assume "i < length (map item_id updated)"
    then have i: "i < length imgs" using len by simp
    then show "map item_id updated ! i = map item_id imgs ! i"
      using optimize_item_Fulfilled(3) [OF nth [OF i]] len by simp
  qed
qed


lemma runBatch_pending:
  assumes "handleStartOptimization env (images st) = ([SetIsProcessing True], Pending)"
  shows "runBatch env st = st\<lparr>isProcessing := True\<rparr>"
  by (simp add: runBatch_def run_effects_def assms)

lemma runBatch_fulfilled:
  assumes "handleStartOptimization env (images st)
    = ([SetIsProcessing True, SetImages updated, SetIsProcessing False, Alert], Fulfilled ())"
  shows "runBatch env st = st\<lparr>images := updated, isProcessing := False, alerts := alerts st + 1\<rparr>"
  by (simp add: runBatch_def run_effects_def assms)

text \<open>
  Claim C1, as amended.  The status of an item has no value for failure and the handler
  catches nothing.  If the image of every item of the batch loads, the run completes: every
  item is done and has a result, the alert is shown once and the processing flag is cleared.
  If the image of some item does not load, the promise of that item never settles, so
  \<^verbatim>\<open>Promise.all\<close> never settles and the run never completes: the only effect is
  \<^verbatim>\<open>setIsProcessing(true)\<close>; no item changes (none is marked as failed and no error is
  recorded), no alert is shown and the processing flag stays set.
\<close>

theorem start_optimization_outcome:
  "((\<forall>img \<in> set (images st). load_image env (preview img) \<noteq> None) \<longrightarrow>
      snd (handleStartOptimization env (images st)) = Fulfilled ()
      \<and> map item_id (images (runBatch env st)) = map item_id (images st)
      \<and> (\<forall>img \<in> set (images (runBatch env st)). status img = Done \<and> resultUrl img \<noteq> None)
      \<and> alerts (runBatch env st) = alerts st + 1
      \<and> \<not> isProcessing (runBatch env st))
   \<and> ((\<exists>img \<in> set (images st). load_image env (preview img) = None) \<longrightarrow>
      handleStartOptimization env (images st) = ([SetIsProcessing True], Pending)
      \<and> images (runBatch env st) = images st
      \<and> alerts (runBatch env st) = alerts st
      \<and> isProcessing (runBatch env st))"
proof (intro conjI impI)
  assume all: "\<forall>img \<in> set (images st). load_image env (preview img) \<noteq> None"
  from start_fulfilled [OF all] obtain updated where
    h: "handleStartOptimization env (images st)
      = ([SetIsProcessing True, SetImages updated, SetIsProcessing False, Alert], Fulfilled ())"
    and m: "map (optimize_item env) (images st) = map Fulfilled updated"
    by blast
  note r = runBatch_fulfilled [OF h]
  show "snd (handleStartOptimization env (images st)) = Fulfilled ()" by (simp add: h)
  show "map item_id (images (runBatch env st)) = map item_id (images st)"
    using updated_items(3) [OF m] by (simp add: r)
  show "\<forall>img \<in> set (images (runBatch env st)). status img = Done \<and> resultUrl img \<noteq> None"
    using updated_items(2) [OF m] by (auto simp add: r)
  show "alerts (runBatch env st) = alerts st + 1" by (simp add: r)
  show "\<not> isProcessing (runBatch env st)" by (simp add: r)
next
  assume some: "\<exists>img \<in> set (images st). load_image env (preview img) = None"
  note h = start_pending [OF some]
  note r = runBatch_pending [OF h]
  show "handleStartOptimization env (images st) = ([SetIsProcessing True], Pending)" by (rule h)
  show "images (runBatch env st) = images st" by (simp add: r)
  show "alerts (runBatch env st) = alerts st" by (simp add: r)
  show "isProcessing (runBatch env st)" by (simp add: r)
qed

lemma example_loads:
  "load_image example_platform ''blob:photo'' = Some (800, 600)"
  "load_image example_platform ''blob:logo'' = Some (640, 640)"
  "load_image example_platform ''blob:empty'' = Some (0, 0)"
  "load_image example_platform ''blob:corrupt'' = None"
  by (simp_all add: example_platform_def)

theorem start_optimization_outcome_witness:
  "load_image example_platform (preview (example_item ''a.png'' ''blob:photo'')) \<noteq> None
   \<and> snd (handleStartOptimization example_platform [example_item ''a.png'' ''blob:photo''])
       = Fulfilled ()
   \<and> map status (images (runBatch example_platform
         (example_state [example_item ''a.png'' ''blob:photo'']))) = [Done]
   \<and> load_image example_platform (preview (example_item ''b.png'' ''blob:corrupt'')) = None
   \<and> images (runBatch example_platform
         (example_state [example_item ''a.png'' ''blob:photo'', example_item ''b.png'' ''blob:corrupt'']))
       = [example_item ''a.png'' ''blob:photo'', example_item ''b.png'' ''blob:corrupt'']"
proof -
  have a: "load_image example_platform (preview (example_item ''a.png'' ''blob:photo'')) \<noteq> None"
    by (simp add: example_item_def example_loads)
  have b: "load_image example_platform (preview (example_item ''b.png'' ''blob:corrupt'')) = None"
    by (simp add: example_item_def example_loads)
  have i1: "images (example_state [example_item ''a.png'' ''blob:photo''])
      = [example_item ''a.png'' ''blob:photo'']"
    and i2: "images (example_state [example_item ''a.png'' ''blob:photo'', example_item ''b.png'' ''blob:corrupt''])
      = [example_item ''a.png'' ''blob:photo'', example_item ''b.png'' ''blob:corrupt'']"
    by (simp_all add: example_state_def)
  have "snd (handleStartOptimization example_platform [example_item ''a.png'' ''blob:photo''])
       = Fulfilled ()
     \<and> map status (images (runBatch example_platform
         (example_state [example_item ''a.png'' ''blob:photo'']))) = [Done]"
    using start_optimization_outcome
      [of "example_state [example_item ''a.png'' ''blob:photo'']" example_platform] a
    by (auto simp add: i1 map_eq_Cons_conv)
  moreover have "images (runBatch example_platform
         (example_state [example_item ''a.png'' ''blob:photo'', example_item ''b.png'' ''blob:corrupt'']))
       = [example_item ''a.png'' ''blob:photo'', example_item ''b.png'' ''blob:corrupt'']"
    using start_optimization_outcome
      [of "example_state [example_item ''a.png'' ''blob:photo'', example_item ''b.png'' ''blob:corrupt'']"
        example_platform] b
    by (simp add: i2)
  ultimately show ?thesis using a b by simp
qed

text \<open>
  Claim C1 as stated fails.  In a batch of a good image and one that does not decode, the
  run stops at the \<^verbatim>\<open>await\<close> for ever: the promise the handler returns stays pending,
  both items keep the status idle and no result is recorded for either.
\<close>

theorem failed_item_counterexample:
  "handleStartOptimization example_platform
      [example_item ''a.png'' ''blob:photo'', example_item ''b.png'' ''blob:corrupt'']
     = ([SetIsProcessing True], Pending)
   \<and> map status (images (runBatch example_platform (example_state
        [example_item ''a.png'' ''blob:photo'', example_item ''b.png'' ''blob:corrupt''])))
     = [Idle, Idle]
   \<and> map resultUrl (images (runBatch example_platform (example_state
        [example_item ''a.png'' ''blob:photo'', example_item ''b.png'' ''blob:corrupt''])))
     = [None, None]"
proof -
  have h: "handleStartOptimization example_platform
      [example_item ''a.png'' ''blob:photo'', example_item ''b.png'' ''blob:corrupt'']
     = ([SetIsProcessing True], Pending)"
    by (rule start_pending) (simp add: example_item_def example_loads)
  then show ?thesis
    by (simp add: runBatch_def run_effects_def example_state_def example_item_def)
qed


section \<open>Independence of the items\<close>

lemma processImage_with_decode_failure:
  "preview img \<noteq> url \<Longrightarrow> processImage (with_decode_failure env url) img = processImage env img"
  by (simp add: processImage_def with_decode_failure_def toDataURL_def
      split: option.splits prod.splits)

text \<open>
  Claim C2, as amended.  Each item is converted on its own: making the image of item \<open>K\<close>
  fail to decode changes the outcome of \<^verbatim>\<open>processImage\<close> and of the \<^verbatim>\<open>map\<close> callback for
  no item with another image source.  But the results are committed together, after
  \<^verbatim>\<open>Promise.all\<close>: with the failure injected the run never completes and every item of the
  batch, item \<open>K\<close> or not, keeps the status and the result it had before the run.
\<close>

theorem decode_failure_effect:
  assumes "K < length (images st)"
  shows "(\<forall>img. preview img \<noteq> preview (images st ! K) \<longrightarrow>
            processImage (with_decode_failure env (preview (images st ! K))) img
              = processImage env img
          \<and> optimize_item (with_decode_failure env (preview (images st ! K))) img
              = optimize_item env img)
    \<and> snd (handleStartOptimization (with_decode_failure env (preview (images st ! K))) (images st))
        = Pending
    \<and> images (runBatch (with_decode_failure env (preview (images st ! K))) st) = images st"
proof -
  let ?env = "with_decode_failure env (preview (images st ! K))"
  have "images st ! K \<in> set (images st)" using assms by simp
  moreover have "load_image ?env (preview (images st ! K)) = None"
    by (simp add: with_decode_failure_def)
  ultimately have "\<exists>img \<in> set (images st). load_image ?env (preview img) = None" by blast
  then have h: "handleStartOptimization ?env (images st) = ([SetIsProcessing True], Pending)"
    by (rule start_pending)
  have "images (runBatch ?env st) = images st"
    by (simp add: runBatch_pending [OF h])
  then show ?thesis
    by (simp add: h optimize_item_def processImage_with_decode_failure)
qed

theorem decode_failure_effect_witness:
  "(0::nat) < length (images (example_state
       [example_item ''a.png'' ''blob:photo'', example_item ''b.png'' ''blob:logo'']))
   \<and> processImage (with_decode_failure example_platform ''blob:photo'')
         (example_item ''b.png'' ''blob:logo'')
       = processImage example_platform (example_item ''b.png'' ''blob:logo'')
   \<and> images (runBatch (with_decode_failure example_platform ''blob:photo'') (example_state
         [example_item ''a.png'' ''blob:photo'', example_item ''b.png'' ''blob:logo'']))
       = [example_item ''a.png'' ''blob:photo'', example_item ''b.png'' ''blob:logo'']"
proof -
  let ?st = "example_state [example_item ''a.png'' ''blob:photo'', example_item ''b.png'' ''blob:logo'']"
  have k: "0 < length (images ?st)" by (simp add: example_state_def)
  have p: "preview (images ?st ! 0) = ''blob:photo''"
    by (simp add: example_state_def example_item_def)
  have q: "preview (example_item ''b.png'' ''blob:logo'') \<noteq> ''blob:photo''"
    by (simp add: example_item_def)
  have i: "images ?st = [example_item ''a.png'' ''blob:photo'', example_item ''b.png'' ''blob:logo'']"
    by (simp add: example_state_def)
  note t = decode_failure_effect [OF k, of example_platform, unfolded p]
  have "processImage (with_decode_failure example_platform ''blob:photo'')
         (example_item ''b.png'' ''blob:logo'')
       = processImage example_platform (example_item ''b.png'' ''blob:logo'')"
    using t q by blast
  moreover have "images (runBatch (with_decode_failure example_platform ''blob:photo'') ?st)
       = [example_item ''a.png'' ''blob:photo'', example_item ''b.png'' ''blob:logo'']"
    using t i by simp
  ultimately show ?thesis using k by simp
qed

lemma example_photo_url:
  "processImage example_platform (example_item n ''blob:photo'')
     = Fulfilled ''data:image/webp;base64,UklGRg==''"
  by (simp add: processImage_def example_item_def example_loads scale_to_max_def MAX_SIZE_def
      toDataURL_def to_unsigned_long_def example_platform_def)

lemma example_logo_url:
  "processImage example_platform (example_item n ''blob:logo'')
     = Fulfilled ''data:image/webp;base64,UklGRg==''"
  by (simp add: processImage_def example_item_def example_loads scale_to_max_def MAX_SIZE_def
      toDataURL_def to_unsigned_long_def example_platform_def)

text \<open>
  Claim C2 as stated fails.  In a batch of two good images, the run as it is leaves item 1
  done with its result; the run with the decode of item 0 replaced by a failure leaves
  item 1 idle with no result.
\<close>

theorem independence_counterexample:
  "map status (images (runBatch example_platform (example_state
       [example_item ''a.png'' ''blob:photo'', example_item ''b.png'' ''blob:logo''])))
     = [Done, Done]
   \<and> map resultUrl (images (runBatch example_platform (example_state
       [example_item ''a.png'' ''blob:photo'', example_item ''b.png'' ''blob:logo''])))
     = [Some ''data:image/webp;base64,UklGRg=='', Some ''data:image/webp;base64,UklGRg=='']
   \<and> map status (images (runBatch (with_decode_failure example_platform ''blob:photo'')
       (example_state [example_item ''a.png'' ''blob:photo'', example_item ''b.png'' ''blob:logo''])))
     = [Idle, Idle]
   \<and> map resultUrl (images (runBatch (with_decode_failure example_platform ''blob:photo'')
       (example_state [example_item ''a.png'' ''blob:photo'', example_item ''b.png'' ''blob:logo''])))
     = [None, None]"
proof -
  have h: "handleStartOptimization (with_decode_failure example_platform ''blob:photo'')
      [example_item ''a.png'' ''blob:photo'', example_item ''b.png'' ''blob:logo'']
     = ([SetIsProcessing True], Pending)"
    by (rule start_pending) (simp add: example_item_def with_decode_failure_def)
  have g: "fst (handleStartOptimization example_platform
      [example_item ''a.png'' ''blob:photo'', example_item ''b.png'' ''blob:logo''])
     = [SetIsProcessing True,
        SetImages
         [(example_item ''a.png'' ''blob:photo'')
            \<lparr>resultUrl := Some ''data:image/webp;base64,UklGRg=='',
             preview := ''data:image/webp;base64,UklGRg=='', status := Done\<rparr>,
          (example_item ''b.png'' ''blob:logo'')
            \<lparr>resultUrl := Some ''data:image/webp;base64,UklGRg=='',
             preview := ''data:image/webp;base64,UklGRg=='', status := Done\<rparr>],
        SetIsProcessing False, Alert]"
    by (simp add: handleStartOptimization_def optimize_item_def example_photo_url example_logo_url)
  show ?thesis
    by (simp add: runBatch_def run_effects_def example_state_def h g)
      (simp add: example_item_def)
qed


section \<open>Degenerate images\<close>

lemma output_size_zero_width:
  "output_size 0 ih = (0, min (unat ih) 1200)"
proof (cases "unat ih \<le> 1200")
  case True
  then have "output_size 0 ih = (unat (0 :: 32 word), unat ih)"
    by (intro output_size_small) simp_all
  then show ?thesis using True by simp
next
  case False
  then have "output_size 0 ih
      = (to_unsigned_long (js_mul (of_nat (unat (0 :: 32 word))) (js_div MAX_SIZE (of_nat (unat ih)))), 1200)"
    by (intro output_size_height_branch) simp_all
  then show ?thesis using False
    by (simp add: js_mul_def fl_zero to_unsigned_long_def)
qed

lemma output_size_zero_height:
  "output_size iw 0 = (min (unat iw) 1200, 0)"
proof (cases "unat iw \<le> 1200")
  case True
  then have "output_size iw 0 = (unat iw, unat (0 :: 32 word))"
    by (intro output_size_small) simp_all
  then show ?thesis using True by simp
next
  case False
  then have "output_size iw 0
      = (1200, to_unsigned_long (js_mul (of_nat (unat (0 :: 32 word))) (js_div MAX_SIZE (of_nat (unat iw)))))"
    by (intro output_size_width_branch) simp_all
  then show ?thesis using False
    by (simp add: js_mul_def fl_zero to_unsigned_long_def)
qed

text \<open>
  Claim C7, as amended.  The code has no check of the dimensions and no error for them
  (a negative dimension cannot occur: \<^verbatim>\<open>img.width\<close> and \<^verbatim>\<open>img.height\<close> are unsigned).  For
  a loaded image whose width or height is zero \<^verbatim>\<open>processImage\<close> is fulfilled, never
  rejected, and the output bitmap keeps the zero dimension, the other one capped at 1200.
\<close>

theorem zero_dimension_no_error:
  assumes "load_image env (preview imgData) = Some (img_width, img_height)"
    and "unat img_width = 0 \<or> unat img_height = 0"
  shows "(\<exists>url. processImage env imgData = Fulfilled url)
    \<and> (\<forall>e. processImage env imgData \<noteq> Rejected e)
    \<and> output_size img_width img_height = (min (unat img_width) 1200, min (unat img_height) 1200)"
proof -
  have "output_size img_width img_height = (min (unat img_width) 1200, min (unat img_height) 1200)"
    using assms(2)
  proof
    assume "unat img_width = 0"
    then have "img_width = 0" by (simp add: unat_eq_0)
    then show ?thesis by (simp add: output_size_zero_width)
  next
    assume "unat img_height = 0"
    then have "img_height = 0" by (simp add: unat_eq_0)
    then show ?thesis by (simp add: output_size_zero_height)
  qed
  then show ?thesis
    using processImage_loaded [OF assms(1)] by (simp add: processImage_not_Rejected)
qed

theorem zero_dimension_no_error_witness:
  "load_image example_platform (preview (example_item ''empty.svg'' ''blob:empty'')) = Some (0, 0)
   \<and> unat (0 :: 32 word) = 0
   \<and> processImage example_platform (example_item ''empty.svg'' ''blob:empty'') \<noteq> Rejected ''InvalidDimensionsError''
   \<and> output_size 0 0 = (0, 0)"
proof -
  have l: "load_image example_platform (preview (example_item ''empty.svg'' ''blob:empty'')) = Some (0, 0)"
    by (simp add: example_item_def example_loads)
  have z: "unat (0 :: 32 word) = 0 \<or> unat (0 :: 32 word) = 0" by simp
  show ?thesis using zero_dimension_no_error [OF l z] l by simp
qed

text \<open>
  Claim C7 as stated fails: for an image that loads with width 0 and height 0 the resizer
  does not fail.  The canvas is 0 x 0 and \<^verbatim>\<open>processImage\<close> is fulfilled with the data URL of
  the empty canvas.
\<close>

theorem invalid_dimensions_counterexample:
  "load_image example_platform (preview (example_item ''empty.svg'' ''blob:empty'')) = Some (0, 0)
   \<and> output_size 0 0 = (0, 0)
   \<and> processImage example_platform (example_item ''empty.svg'' ''blob:empty'') = Fulfilled ''data:,''"
  by (simp add: output_size_zero_width processImage_def example_item_def example_loads
      scale_to_max_def MAX_SIZE_def toDataURL_def to_unsigned_long_def example_platform_def)

section \<open>The invariant of the items\<close>

lemma run_effects_start_images:
  "images (run_effects (fst (handleStartOptimization env imgs)) st) = images st
   \<or> (\<exists>updated. images (run_effects (fst (handleStartOptimization env imgs)) st) = updated
        \<and> map (optimize_item env) imgs = map Fulfilled updated)"
  using start_cases [of env imgs] by (auto simp add: run_effects_def)

lemma new_items:
  "img \<in> set (map (\<lambda>(i, f). \<lparr>item_id = fst (fresh i), item_file = f, preview = snd (fresh i),
       status = Idle, resultUrl = None\<rparr>) (enumerate n fs)) \<Longrightarrow> status img = Idle \<and> resultUrl img = None"
  by auto

lemma handlers_preserve:
  assumes new: "\<And>img. status img = Idle \<and> resultUrl img = None \<Longrightarrow> P img"
    and conv: "\<And>img. status img = Done \<and> (\<exists>rest. resultUrl img = Some (''data:'' @ rest)) \<Longrightarrow> P img"
    and inv: "\<forall>img \<in> set (images st). P img"
  shows "(\<forall>img \<in> set (images (run_effects (handleFileChange fresh files) st)). P img)
    \<and> (\<forall>img \<in> set (images (run_effects (fst (handleStartOptimization env imgs)) st)).
          P img)
    \<and> (\<forall>img \<in> set (images (run_effects (downloadAllAsZip imgs) st)). P img)"
proof (intro conjI ballI)
  fix img
  assume "img \<in> set (images (run_effects (handleFileChange fresh files) st))"
  then show "P img"
  proof (cases files)
    case None
    assume "img \<in> set (images (run_effects (handleFileChange fresh files) st))"
    then show ?thesis using inv None by (simp add: handleFileChange_def run_effects_def)
  next
    case (Some fs)
    assume "img \<in> set (images (run_effects (handleFileChange fresh files) st))"
    then have "img \<in> set (images st) \<or> img \<in> set (map (\<lambda>(i, f). \<lparr>item_id = fst (fresh i), item_file = f, preview = snd (fresh i),
       status = Idle, resultUrl = None\<rparr>) (enumerate 0 fs))"
      using Some by (simp add: handleFileChange_def run_effects_def)
    then show ?thesis
    proof
      assume "img \<in> set (images st)"
      then show ?thesis using inv by simp
    next
      assume "img \<in> set (map (\<lambda>(i, f). \<lparr>item_id = fst (fresh i), item_file = f, preview = snd (fresh i),
       status = Idle, resultUrl = None\<rparr>) (enumerate 0 fs))"
      from new_items [OF this] show ?thesis by (rule new)
    qed
  qed
next
  fix img
  assume m: "img \<in> set (images (run_effects (fst (handleStartOptimization env imgs)) st))"
  from run_effects_start_images [of env imgs st] show "P img"
  proof
    assume "images (run_effects (fst (handleStartOptimization env imgs)) st) = images st"
    then show ?thesis using m inv by simp
  next
    assume "\<exists>updated. images (run_effects (fst (handleStartOptimization env imgs)) st) = updated
        \<and> map (optimize_item env) imgs = map Fulfilled updated"
    then obtain updated where "img \<in> set updated"
      and "map (optimize_item env) imgs = map Fulfilled updated"
      using m by blast
    from updated_items(2) [OF this(2) this(1)] show ?thesis by (rule conv)
  qed
next
  fix img
  assume "img \<in> set (images (run_effects (downloadAllAsZip imgs) st))"
  then show "P img"
    using inv by (simp add: downloadAllAsZip_def run_effects_def)
qed


lemma item_ok_preserved:
  assumes "\<forall>img \<in> set (images st). item_ok img"
  shows "(\<forall>img \<in> set (images (run_effects (handleFileChange fresh files) st)). item_ok img)
    \<and> (\<forall>img \<in> set (images (run_effects (fst (handleStartOptimization env imgs)) st)).
          item_ok img)
    \<and> (\<forall>img \<in> set (images (run_effects (downloadAllAsZip imgs) st)). item_ok img)"
  using assms by (intro handlers_preserve) (auto simp add: item_ok_def)

text \<open>
  Claim C8.  Each of the three handlers keeps the invariant that an item has a result
  (\<^verbatim>\<open>resultUrl\<close>) exactly when its status is done: if it holds for every item of the state,
  it holds for every item of the state after \<^verbatim>\<open>handleFileChange\<close>, after
  \<^verbatim>\<open>handleStartOptimization\<close> (whether the run completes or not, and whatever batch the
  handler has captured) and after \<^verbatim>\<open>downloadAllAsZip\<close>.
\<close>

theorem output_iff_done_preserved:
  assumes "\<forall>img \<in> set (images st). output_iff_done img"
  shows "(\<forall>img \<in> set (images (run_effects (handleFileChange fresh files) st)). output_iff_done img)
    \<and> (\<forall>img \<in> set (images (run_effects (fst (handleStartOptimization env imgs)) st)).
          output_iff_done img)
    \<and> (\<forall>img \<in> set (images (run_effects (downloadAllAsZip imgs) st)). output_iff_done img)"
  using assms by (intro handlers_preserve) (auto simp add: output_iff_done_def)

theorem output_iff_done_preserved_witness:
  "output_iff_done (example_done ''a.png'') \<and> output_iff_done (example_item ''b.png'' ''blob:photo'')
   \<and> list_all output_iff_done (images (run_effects
        (handleFileChange (\<lambda>i. (''id'', ''blob:logo'')) (Some [\<lparr>file_name = ''c.png'', file_size = 7\<rparr>]))
        (example_state [example_done ''a.png'', example_item ''b.png'' ''blob:photo''])))
   \<and> list_all output_iff_done (images (run_effects
        (fst (handleStartOptimization example_platform
           [example_done ''a.png'', example_item ''b.png'' ''blob:photo'']))
        (example_state [example_done ''a.png'', example_item ''b.png'' ''blob:photo''])))
   \<and> list_all output_iff_done (images (run_effects
        (downloadAllAsZip [example_done ''a.png'', example_item ''b.png'' ''blob:photo''])
        (example_state [example_done ''a.png'', example_item ''b.png'' ''blob:photo''])))"
proof -
  have a: "output_iff_done (example_done ''a.png'')"
    and b: "output_iff_done (example_item ''b.png'' ''blob:photo'')"
    by (simp_all add: output_iff_done_def example_done_def example_item_def)
  then have h: "\<forall>img \<in> set (images (example_state [example_done ''a.png'', example_item ''b.png'' ''blob:photo''])).
      output_iff_done img"
    by (simp add: example_state_def)
  show ?thesis
    using output_iff_done_preserved [OF h] a b by (simp add: list_all_iff)
qed


section \<open>The completion barrier\<close>

lemma example_start_photo:
  "fst (handleStartOptimization example_platform [example_item n ''blob:photo''])
     = [SetIsProcessing True,
        SetImages [(example_item n ''blob:photo'')
            \<lparr>resultUrl := Some ''data:image/webp;base64,UklGRg=='',
             preview := ''data:image/webp;base64,UklGRg=='', status := Done\<rparr>],
        SetIsProcessing False, Alert]"
  by (simp add: handleStartOptimization_def optimize_item_def example_photo_url)

text \<open>
  Claim C9.  In the sequence of effects of \<^verbatim>\<open>handleStartOptimization\<close> the alert comes
  only after the batch has been replaced by the converted items, all of them done (the
  only terminal status the code has), one for each item of the input.  And from the first
  effect on, whenever the download button (line 174) is shown, every item of the state is
  done.  If some promise never settles, neither happens.
\<close>

theorem batch_complete_barrier:
  assumes "k \<le> length (fst (handleStartOptimization env imgs))"
  shows "(k < length (fst (handleStartOptimization env imgs))
          \<and> fst (handleStartOptimization env imgs) ! k = Alert \<longrightarrow>
            length (images (run_effects (take k (fst (handleStartOptimization env imgs))) st))
              = length imgs
            \<and> list_all (\<lambda>img. status img = Done)
                (images (run_effects (take k (fst (handleStartOptimization env imgs))) st)))
    \<and> (0 < k \<and> showDownload (run_effects (take k (fst (handleStartOptimization env imgs))) st) \<longrightarrow>
          list_all (\<lambda>img. status img = Done)
            (images (run_effects (take k (fst (handleStartOptimization env imgs))) st)))"
proof -
  from start_cases [of env imgs] show ?thesis
  proof
    assume h: "handleStartOptimization env imgs = ([SetIsProcessing True], Pending)"
    then have "k = 0 \<or> k = Suc 0" using assms by auto
    then show ?thesis
      by (auto simp add: h run_effects_def showDownload_def)
  next
    assume "\<exists>updated. handleStartOptimization env imgs
        = ([SetIsProcessing True, SetImages updated, SetIsProcessing False, Alert], Fulfilled ())
      \<and> map (optimize_item env) imgs = map Fulfilled updated"
    then obtain updated where
      h: "handleStartOptimization env imgs
        = ([SetIsProcessing True, SetImages updated, SetIsProcessing False, Alert], Fulfilled ())"
      and m: "map (optimize_item env) imgs = map Fulfilled updated"
      by blast
    have d: "list_all (\<lambda>img. status img = Done) updated"
      using updated_items(2) [OF m] by (simp add: list_all_iff)
    have l: "length updated = length imgs" by (rule updated_items(1) [OF m])
    have "k \<le> 4" using assms by (simp add: h)
    then consider "k = 0" | "k = Suc 0" | "k = Suc (Suc 0)" | "k = Suc (Suc (Suc 0))"
      | "k = Suc (Suc (Suc (Suc 0)))"
      by arith
    then show ?thesis
    proof cases
      case 1
      then show ?thesis by (simp add: h)
    next
      case 2
      then show ?thesis by (simp add: h run_effects_def showDownload_def)
    next
      case 3
      then show ?thesis by (simp add: h run_effects_def showDownload_def)
    next
      case 4
      then show ?thesis by (simp add: h run_effects_def d l)
    next
      case 5
      then show ?thesis by (simp add: h run_effects_def d)
    qed
  qed
qed

theorem batch_complete_barrier_witness:
  "(3::nat) \<le> length (fst (handleStartOptimization example_platform [example_item ''a.png'' ''blob:photo'']))
   \<and> fst (handleStartOptimization example_platform [example_item ''a.png'' ''blob:photo'']) ! 3 = Alert
   \<and> showDownload (run_effects
        (take 3 (fst (handleStartOptimization example_platform [example_item ''a.png'' ''blob:photo''])))
        (example_state [example_item ''a.png'' ''blob:photo'']))
   \<and> list_all (\<lambda>img. status img = Done) (images (run_effects
        (take 3 (fst (handleStartOptimization example_platform [example_item ''a.png'' ''blob:photo''])))
        (example_state [example_item ''a.png'' ''blob:photo''])))"
proof -
  let ?t = "fst (handleStartOptimization example_platform [example_item ''a.png'' ''blob:photo''])"
  let ?st = "example_state [example_item ''a.png'' ''blob:photo'']"
  have k: "(3::nat) \<le> length ?t" by (simp add: example_start_photo)
  have a: "?t ! 3 = Alert" by (simp add: example_start_photo)
  have s: "showDownload (run_effects (take 3 ?t) ?st)"
    by (simp add: example_start_photo run_effects_def showDownload_def example_state_def
        numeral_3_eq_3)
  have "list_all (\<lambda>img. status img = Done) (images (run_effects (take 3 ?t) ?st))"
    using batch_complete_barrier [OF k, of ?st] s by simp
  then show ?thesis using k a s by simp
qed

section \<open>The archive\<close>

lemma replace_ext_no_match:
  assumes "\<not> (\<exists>stem ext. n = stem @ CHR ''.'' # ext \<and> ext \<noteq> []
             \<and> CHR ''.'' \<notin> set ext \<and> CHR ''/'' \<notin> set ext)"
  shows "replace_ext n = n"
  using assms
proof (induction n)
  case Nil
  then show ?case by simp
next
  case (Cons c cs)
  have "\<not> matches_ext (c # cs)"
  proof
    assume "matches_ext (c # cs)"
    then have "c # cs = [] @ CHR ''.'' # cs \<and> cs \<noteq> []
        \<and> CHR ''.'' \<notin> set cs \<and> CHR ''/'' \<notin> set cs"
      by (auto simp add: list_all_iff)
    then show False using Cons.prems by blast
  qed
  moreover have "replace_ext cs = cs"
  proof (rule Cons.IH, rule notI)
    assume "\<exists>stem ext. cs = stem @ CHR ''.'' # ext \<and> ext \<noteq> []
        \<and> CHR ''.'' \<notin> set ext \<and> CHR ''/'' \<notin> set ext"
    then obtain stem ext where "cs = stem @ CHR ''.'' # ext" "ext \<noteq> []"
      "CHR ''.'' \<notin> set ext" "CHR ''/'' \<notin> set ext"
      by blast
    then have "c # cs = (c # stem) @ CHR ''.'' # ext \<and> ext \<noteq> []
        \<and> CHR ''.'' \<notin> set ext \<and> CHR ''/'' \<notin> set ext"
      by simp
    then show False using Cons.prems by blast
  qed
  ultimately show ?case by simp
qed

lemma replace_ext_leading_dot:
  "suffix \<noteq> [] \<Longrightarrow> CHR ''.'' \<notin> set suffix \<Longrightarrow> CHR ''/'' \<notin> set suffix \<Longrightarrow>
   replace_ext (CHR ''.'' # suffix) = []"
  by (auto simp add: list_all_iff)

lemma zip_file_call_ok:
  assumes "item_ok img"
  shows "zip_file_call img =
    (if status img = Done
     then Some (replace_ext (file_name (item_file img)) @ ''.webp'',
                Option.bind (resultUrl img) base64Data)
     else None)"
  using assms by (auto simp add: item_ok_def zip_file_call_def fileName_def split: option.splits)





lemma example_items_ok:
  "item_ok (example_done n)" "item_ok (example_item n url)"
  by (simp_all add: item_ok_def example_done_def example_item_def)




text \<open>
  Claim C10.  For an item that is done, a file name with no extension (no dot followed to
  the end of the name by one or more characters other than dot and slash; in particular a
  name without any dot) is kept whole and \<^verbatim>\<open>.webp\<close> is appended.  A file name that is a
  dot followed by a suffix without dot or slash, such as \<^verbatim>\<open>.config\<close>, is removed whole
  and the entry is named \<^verbatim>\<open>.webp\<close>.
\<close>

theorem entry_name_edge_cases:
  assumes "item_ok img" and "status img = Done"
  shows "(\<not> (\<exists>stem ext. file_name (item_file img) = stem @ CHR ''.'' # ext \<and> ext \<noteq> []
              \<and> CHR ''.'' \<notin> set ext \<and> CHR ''/'' \<notin> set ext) \<longrightarrow>
            map fst (zip_files [img]) = [file_name (item_file img) @ ''.webp''])
    \<and> (\<forall>suffix. file_name (item_file img) = CHR ''.'' # suffix \<and> suffix \<noteq> []
            \<and> CHR ''.'' \<notin> set suffix \<and> CHR ''/'' \<notin> set suffix \<longrightarrow>
            map fst (zip_files [img]) = [''.webp''])"
proof -
  have "map fst (zip_files [img]) = [replace_ext (file_name (item_file img)) @ ''.webp'']"
    using assms by (simp add: zip_files_def map_filter_simps zip_file_call_ok)
  then show ?thesis
    by (auto simp add: replace_ext_no_match replace_ext_leading_dot simp del: replace_ext.simps)
qed

theorem entry_name_edge_cases_witness:
  "item_ok (example_done ''README'') \<and> status (example_done ''README'') = Done
   \<and> \<not> (\<exists>stem ext. ''README'' = stem @ CHR ''.'' # ext \<and> ext \<noteq> []
              \<and> CHR ''.'' \<notin> set ext \<and> CHR ''/'' \<notin> set ext)
   \<and> map fst (zip_files [example_done ''README'']) = [''README.webp'']
   \<and> item_ok (example_done ''.config'') \<and> status (example_done ''.config'') = Done
   \<and> map fst (zip_files [example_done ''.config'']) = [''.webp'']"
proof -
  have s: "status (example_done n) = Done" for n by (simp add: example_done_def)
  have n: "file_name (item_file (example_done n)) = n" for n by (simp add: example_done_def)
  have r: "\<not> (\<exists>stem ext. ''README'' = stem @ CHR ''.'' # ext \<and> ext \<noteq> []
              \<and> CHR ''.'' \<notin> set ext \<and> CHR ''/'' \<notin> set ext)"
  proof
    assume "\<exists>stem ext. ''README'' = stem @ CHR ''.'' # ext \<and> ext \<noteq> []
              \<and> CHR ''.'' \<notin> set ext \<and> CHR ''/'' \<notin> set ext"
    then obtain stem ext where e: "''README'' = stem @ CHR ''.'' # ext" by blast
    have "CHR ''.'' \<in> set (stem @ CHR ''.'' # ext)" by simp
    then have "CHR ''.'' \<in> set ''README''" by (simp only: e [symmetric])
    then show False by simp
  qed
  have "map fst (zip_files [example_done ''README'']) = [''README.webp'']"
    using entry_name_edge_cases [OF example_items_ok(1) s, of "''README''"] r by (simp add: n)
  moreover have "map fst (zip_files [example_done ''.config'']) = [''.webp'']"
    using entry_name_edge_cases [OF example_items_ok(1) s, of "''.config''"] by (simp add: n)
  ultimately show ?thesis using r by (simp add: example_items_ok s)
qed

end
